theory Spec2Isabelle
  imports Complex_Main "HOL-Library.Log_Nat"
begin

section \<open>Python values: exceptions, integers and double-precision floats\<close>

text \<open>
  The two scripts \<^verbatim>\<open>src/ascii/gen_ascii.py\<close> (the glyph variant) and
  \<^verbatim>\<open>src/shader/gen_shader.py\<close> (the block variant) are embedded as HOL functions.
  Python integers are \<open>int\<close>. An exception is a value \<open>Inl e\<close> of the sum type
  \<open>error + 'a\<close>; a normal return is \<open>Inr v\<close>.
\<close>

datatype error = ValueError string | ZeroDivisionError | IndexError

definition and_then :: "error + 'a \<Rightarrow> ('a \<Rightarrow> error + 'b) \<Rightarrow> error + 'b" where
  "and_then m f = (case m of Inl e \<Rightarrow> Inl e | Inr v \<Rightarrow> f v)"

text \<open>
  A Python float is an IEEE 754 binary64 number. A finite one is a rational, and every
  arithmetic operation returns the exact result rounded to the nearest number with a
  53-bit significand, ties to the even significand. \<open>fround\<close> is that rounding. The
  exponent range is not bounded: overflow and underflow need magnitudes beyond
  \<open>2 ^ 1023\<close> or below \<open>2 ^ (- 1022)\<close>, which in these programs take a shade
  count of more than a thousand bits.
\<close>

definition rne :: "rat \<Rightarrow> int" where
  "rne q = (let f = \<lfloor>q\<rfloor>; d = q - of_int f
            in if d < 1/2 then f else if 1/2 < d then f + 1
               else if even f then f else f + 1)"

definition ilog2 :: "rat \<Rightarrow> int" where
  "ilog2 x = (if 1 \<le> x then bitlen \<lfloor>x\<rfloor> - 1 else - bitlen (\<lceil>1 / x\<rceil> - 1))"

definition fulp :: "rat \<Rightarrow> rat" where
  "fulp x = 2 powi (ilog2 \<bar>x\<bar> - 52)"

definition fround :: "rat \<Rightarrow> rat" where
  "fround x = (if x = 0 then 0 else of_int (rne (x / fulp x)) * fulp x)"

text \<open>\<open>float(n)\<close> for an integer, and the four operations on floats.\<close>

definition float_of_int :: "int \<Rightarrow> rat" where
  "float_of_int n = fround (of_int n)"

definition fadd :: "rat \<Rightarrow> rat \<Rightarrow> rat" where
  "fadd a b = fround (a + b)"

definition fsub :: "rat \<Rightarrow> rat \<Rightarrow> rat" where
  "fsub a b = fround (a - b)"

definition fmul :: "rat \<Rightarrow> rat \<Rightarrow> rat" where
  "fmul a b = fround (a * b)"

definition fdiv :: "rat \<Rightarrow> rat \<Rightarrow> error + rat" where
  "fdiv a b = (if b = 0 then Inl ZeroDivisionError else Inr (fround (a / b)))"

text \<open>\<open>a / b\<close> on two integers: the exact quotient, rounded once.\<close>

definition int_truediv :: "int \<Rightarrow> int \<Rightarrow> error + rat" where
  "int_truediv a b = (if b = 0 then Inl ZeroDivisionError else Inr (fround (of_int a / of_int b)))"

text \<open>\<open>int(x)\<close> on a float truncates toward zero.\<close>

definition py_int :: "rat \<Rightarrow> int" where
  "py_int x = (if 0 \<le> x then \<lfloor>x\<rfloor> else \<lceil>x\<rceil>)"

text \<open>The float literals of the sources.\<close>

definition d0_1 :: rat where "d0_1 = fround (1 / 10)"
definition d0_3 :: rat where "d0_3 = fround (3 / 10)"
definition d0_85 :: rat where "d0_85 = fround (85 / 100)"

text \<open>\<open>xs[i]\<close>: a negative index counts from the end, an index out of range raises.\<close>

definition py_index :: "'a list \<Rightarrow> int \<Rightarrow> error + 'a" where
  "py_index xs i =
     (if 0 \<le> i \<and> i < int (length xs) then Inr (xs ! nat i)
      else if i < 0 \<and> - int (length xs) \<le> i then Inr (xs ! nat (int (length xs) + i))
      else Inl IndexError)"

text \<open>A \<open>for\<close> loop that appends one value per index, and one that updates a state.\<close>

fun collect :: "(int \<Rightarrow> error + 'a) \<Rightarrow> int list \<Rightarrow> error + 'a list" where
  "collect f [] = Inr []"
| "collect f (i # is) = and_then (f i) (\<lambda>c. and_then (collect f is) (\<lambda>cs. Inr (c # cs)))"

fun for_each :: "('s \<Rightarrow> 'a \<Rightarrow> error + 's) \<Rightarrow> 'a list \<Rightarrow> 's \<Rightarrow> error + 's" where
  "for_each body [] s = Inr s"
| "for_each body (x # xs) s = and_then (body s x) (for_each body xs)"

section \<open>Parsing the base color: \<open>hex_to_rgb\<close> (the same in both scripts)\<close>

type_synonym color = "int \<times> int \<times> int"

definition valid_color :: "color \<Rightarrow> bool" where
  "valid_color c = (case c of (r, g, b) \<Rightarrow>
     0 \<le> r \<and> r \<le> 255 \<and> 0 \<le> g \<and> g \<le> 255 \<and> 0 \<le> b \<and> b \<le> 255)"

text \<open>
  \<open>int(s, 16)\<close> of the language: surrounding whitespace is dropped, a sign is accepted,
  then an optional \<open>0x\<close> prefix, then hexadecimal digits that single underscores may
  separate. Strings are modelled with 8-bit characters.
\<close>

definition is_space :: "char \<Rightarrow> bool" where
  "is_space c = (let n = (of_char c :: nat)
                 in (9 \<le> n \<and> n \<le> 13) \<or> (28 \<le> n \<and> n \<le> 32) \<or> n = 133 \<or> n = 160)"

definition hex_digit :: "char \<Rightarrow> int option" where
  "hex_digit c = (let n = (of_char c :: int)
                  in if 48 \<le> n \<and> n \<le> 57 then Some (n - 48)
                     else if 97 \<le> n \<and> n \<le> 102 then Some (n - 87)
                     else if 65 \<le> n \<and> n \<le> 70 then Some (n - 55)
                     else None)"

fun hex_digits :: "string \<Rightarrow> int \<Rightarrow> int option" where
  "hex_digits [] acc = Some acc"
| "hex_digits (c # cs) acc =
     (if c = CHR ''_'' then
        (case cs of
           [] \<Rightarrow> None
         | d # ds \<Rightarrow> (case hex_digit d of None \<Rightarrow> None
                      | Some v \<Rightarrow> hex_digits ds (16 * acc + v)))
      else (case hex_digit c of None \<Rightarrow> None
            | Some v \<Rightarrow> hex_digits cs (16 * acc + v)))"

definition strip_sign :: "string \<Rightarrow> bool \<times> string" where
  "strip_sign t = (case t of
       [] \<Rightarrow> (False, t)
     | c # cs \<Rightarrow> if c = CHR ''-'' then (True, cs)
                else if c = CHR ''+'' then (False, cs) else (False, t))"

definition strip_0x :: "string \<Rightarrow> string" where
  "strip_0x u = (case u of
       a # b # cs \<Rightarrow>
         if a = CHR ''0'' \<and> (b = CHR ''x'' \<or> b = CHR ''X'')
         then (case cs of c # ds \<Rightarrow> if c = CHR ''_'' then ds else cs | [] \<Rightarrow> cs)
         else u
     | _ \<Rightarrow> u)"

definition int_base16 :: "string \<Rightarrow> error + int" where
  "int_base16 s =
     (let t = rev (dropWhile is_space (rev (dropWhile is_space s)));
          w = strip_0x (snd (strip_sign t));
          bad = Inl (ValueError (''invalid literal for int() with base 16: '' @ s))
      in case w of
           [] \<Rightarrow> bad
         | c # cs \<Rightarrow>
             (case hex_digit c of
                None \<Rightarrow> bad
              | Some v \<Rightarrow>
                  (case hex_digits cs v of
                     None \<Rightarrow> bad
                   | Some n \<Rightarrow> Inr (if fst (strip_sign t) then - n else n))))"

text \<open>\<open>hex_color.lstrip('#')\<close> and the slice \<open>hex_color[i:i+2]\<close>.\<close>

definition lstrip_hash :: "string \<Rightarrow> string" where
  "lstrip_hash s = dropWhile (\<lambda>c. c = CHR ''#'') s"

definition slice2 :: "string \<Rightarrow> nat \<Rightarrow> string" where
  "slice2 s i = take 2 (drop i s)"

definition hex_to_rgb :: "string \<Rightarrow> error + color" where
  "hex_to_rgb hex_color =
     (let h = lstrip_hash hex_color
      in if length h \<noteq> 6 then Inl (ValueError ''Invalid hex color format. Use #RRGGBB.'')
         else and_then (int_base16 (slice2 h 0)) (\<lambda>r.
              and_then (int_base16 (slice2 h 2)) (\<lambda>g.
              and_then (int_base16 (slice2 h 4)) (\<lambda>b. Inr (r, g, b)))))"

section \<open>The shade ramp: \<open>generate_shades\<close>\<close>

text \<open>
  Both scripts write the same two expressions once per channel:
  \<open>int(c * factor)\<close> and \<open>int(a + (b - a) * t)\<close>, on integers \<open>c\<close>, \<open>a\<close>, \<open>b\<close> and
  a float \<open>factor\<close>, \<open>t\<close>.
\<close>

definition scale_channel :: "int \<Rightarrow> rat \<Rightarrow> int" where
  "scale_channel c factor = py_int (fmul (float_of_int c) factor)"

definition interp_channel :: "int \<Rightarrow> int \<Rightarrow> rat \<Rightarrow> int" where
  "interp_channel a b t = py_int (fadd (float_of_int a) (fmul (float_of_int (b - a)) t))"

definition background_shade :: "color \<Rightarrow> rat \<Rightarrow> color" where
  "background_shade base_rgb bg_brightness_factor = (case base_rgb of (base_r, base_g, base_b) \<Rightarrow>
     (scale_channel base_r bg_brightness_factor,
      scale_channel base_g bg_brightness_factor,
      scale_channel base_b bg_brightness_factor))"

definition clamp255 :: "int \<Rightarrow> int" where
  "clamp255 v = min (max 0 v) 255"

text \<open>
  The contract of the specification for a ramp of \<open>n\<close> shades: exactly \<open>n\<close>
  colors, element 0 the base color with each channel multiplied by 0.1 (in exact
  arithmetic) and rounded toward zero, every channel in \<open>[0, 255]\<close>, and element 0
  no brighter than the base color in any channel.
\<close>

definition spec_background :: "color \<Rightarrow> color" where
  "spec_background base_rgb = (case base_rgb of (r, g, b) \<Rightarrow>
     (py_int (of_int r * (1 / 10)), py_int (of_int g * (1 / 10)), py_int (of_int b * (1 / 10))))"

definition channels_le :: "color \<Rightarrow> color \<Rightarrow> bool" where
  "channels_le c d = (case c of (r, g, b) \<Rightarrow> case d of (r', g', b') \<Rightarrow>
     r \<le> r' \<and> g \<le> g' \<and> b \<le> b')"

definition ramp_contract :: "color \<Rightarrow> int \<Rightarrow> color list \<Rightarrow> bool" where
  "ramp_contract base_rgb n shades =
     (length shades = nat n \<and> shades ! 0 = spec_background base_rgb
      \<and> list_all valid_color shades \<and> channels_le (shades ! 0) base_rgb)"

subsection \<open>Glyph variant (gen_ascii.py, lines 13 to 80)\<close>

text \<open>
  The body of the loop over the foreground shades (lines 43 to 77). Where the source
  guards a division with \<open>if d > 0 else 0\<close>, so does the model.
\<close>

definition ascii_fg_shade :: "color \<Rightarrow> color \<Rightarrow> int \<Rightarrow> int \<Rightarrow> error + color" where
  "ascii_fg_shade base_rgb bg num_foreground_shades i =
     (case base_rgb of (base_r, base_g, base_b) \<Rightarrow> case bg of (bg_r, bg_g, bg_b) \<Rightarrow>
      let base_target_fg_idx = (num_foreground_shades - 1) div 2;
          dark_fg_start_r = interp_channel bg_r base_r d0_3;
          dark_fg_start_g = interp_channel bg_g base_g d0_3;
          dark_fg_start_b = interp_channel bg_b base_b d0_3;
          light_fg_end_r = interp_channel base_r 255 d0_85;
          light_fg_end_g = interp_channel base_g 255 d0_85;
          light_fg_end_b = interp_channel base_b 255 d0_85
      in and_then
          (if i < base_target_fg_idx then
             and_then (if base_target_fg_idx > 0 then int_truediv i base_target_fg_idx else Inr 0)
               (\<lambda>t. Inr (interp_channel dark_fg_start_r base_r t,
                          interp_channel dark_fg_start_g base_g t,
                          interp_channel dark_fg_start_b base_b t))
           else if i = base_target_fg_idx then Inr (base_r, base_g, base_b)
           else
             let steps_in_segment = (num_foreground_shades - 1) - base_target_fg_idx;
                 current_step_in_segment = i - base_target_fg_idx
             in and_then (if steps_in_segment > 0
                          then int_truediv current_step_in_segment steps_in_segment else Inr 0)
               (\<lambda>t. Inr (interp_channel base_r light_fg_end_r t,
                          interp_channel base_g light_fg_end_g t,
                          interp_channel base_b light_fg_end_b t)))
          (\<lambda>(r, g, b). Inr (clamp255 r, clamp255 g, clamp255 b)))"

definition ascii_generate_shades :: "color \<Rightarrow> int \<Rightarrow> rat \<Rightarrow> error + color list" where
  "ascii_generate_shades base_rgb num_total_shades bg_brightness_factor =
     (if num_total_shades < 2
      then Inl (ValueError ''Total number of shades must be at least 2 (background + one foreground).'')
      else
        let bg = background_shade base_rgb bg_brightness_factor;
            num_foreground_shades = num_total_shades - 1
        in if num_foreground_shades = 0 then Inr [bg]
           else if num_foreground_shades = 1 then Inr [bg, base_rgb]
           else and_then
                  (collect (ascii_fg_shade base_rgb bg num_foreground_shades)
                     [0..num_foreground_shades - 1])
                  (\<lambda>fg. Inr (bg # fg)))"

subsection \<open>Block variant (gen_shader.py, lines 14 to 98)\<close>

text \<open>The first computation, lines 31 to 54: its list is replaced at line 60.\<close>

definition shader_first_pass :: "color \<Rightarrow> color \<Rightarrow> int \<Rightarrow> error + color list" where
  "shader_first_pass base_rgb bg num_shades =
     (case base_rgb of (base_r, base_g, base_b) \<Rightarrow> case bg of (bg_r, bg_g, bg_b) \<Rightarrow>
      let steps_to_base = (num_shades - 1) div 2
      in and_then
          (if steps_to_base > 0 then
             collect (\<lambda>i. and_then (int_truediv i (steps_to_base + 1))
                       (\<lambda>factor. Inr (interp_channel bg_r base_r factor,
                                       interp_channel bg_g base_g factor,
                                       interp_channel bg_b base_b factor)))
               [1..steps_to_base]
           else Inr [])
          (\<lambda>darker.
             let shades = [bg] @ darker @ [base_rgb];
                 steps_to_white = num_shades - int (length shades)
             in and_then
                 (if steps_to_white > 0 then
                    collect (\<lambda>i. and_then (int_truediv i (steps_to_white + 1))
                              (\<lambda>factor. Inr (min (interp_channel base_r 255 factor) 255,
                                              min (interp_channel base_g 255 factor) 255,
                                              min (interp_channel base_b 255 factor) 255)))
                      [1..steps_to_white]
                  else Inr [])
                 (\<lambda>lighter. Inr (shades @ lighter))))"

text \<open>
  The body of the second loop, lines 73 to 90. An integer is compared with a float
  exactly.
\<close>

definition shader_shade :: "color \<Rightarrow> color \<Rightarrow> int \<Rightarrow> int \<Rightarrow> error + color" where
  "shader_shade base_rgb bg num_shades i =
     (case base_rgb of (base_r, base_g, base_b) \<Rightarrow> case bg of (bg_r, bg_g, bg_b) \<Rightarrow>
      and_then (fdiv (float_of_int (num_shades - 1)) 2) (\<lambda>mid_point_index.
      and_then
        (if of_int i < mid_point_index then
           and_then (fdiv (float_of_int i) mid_point_index)
             (\<lambda>factor. Inr (interp_channel bg_r base_r factor,
                             interp_channel bg_g base_g factor,
                             interp_channel bg_b base_b factor))
         else if of_int i > mid_point_index then
           and_then (fdiv (fsub (float_of_int i) mid_point_index)
                          (fsub (float_of_int (num_shades - 1)) mid_point_index))
             (\<lambda>factor. Inr (interp_channel base_r 255 factor,
                             interp_channel base_g 255 factor,
                             interp_channel base_b 255 factor))
         else Inr (base_r, base_g, base_b))
        (\<lambda>(r, g, b). Inr (min (max r 0) 255, min (max g 0) 255, min (max b 0) 255))))"

text \<open>Lines 60 to 95: the second loop, then \<open>shades[0] = ...\<close>.\<close>

definition shader_second_pass :: "color \<Rightarrow> color \<Rightarrow> int \<Rightarrow> rat \<Rightarrow> error + color list" where
  "shader_second_pass base_rgb bg num_shades bg_brightness_factor =
     and_then (collect (shader_shade base_rgb bg num_shades) [0..num_shades - 1])
       (\<lambda>shades. case shades of
            [] \<Rightarrow> Inl IndexError
          | _ # rest \<Rightarrow> Inr (background_shade base_rgb bg_brightness_factor # rest))"

definition shader_generate_shades :: "color \<Rightarrow> int \<Rightarrow> rat \<Rightarrow> error + color list" where
  "shader_generate_shades base_rgb num_shades bg_brightness_factor =
     (if num_shades < 2 then Inl (ValueError ''Number of shades must be at least 2.'')
      else
        let bg = background_shade base_rgb bg_brightness_factor
        in and_then (shader_first_pass base_rgb bg num_shades)
             (\<lambda>discarded. shader_second_pass base_rgb bg num_shades bg_brightness_factor))"

text \<open>
  The function the specification compares with: the argument check, the background
  shade, then only the second loop and the assignment to element 0.
\<close>

definition shader_generate_shades_simplified :: "color \<Rightarrow> int \<Rightarrow> rat \<Rightarrow> error + color list" where
  "shader_generate_shades_simplified base_rgb num_shades bg_brightness_factor =
     (if num_shades < 2 then Inl (ValueError ''Number of shades must be at least 2.'')
      else shader_second_pass base_rgb (background_shade base_rgb bg_brightness_factor)
             num_shades bg_brightness_factor)"

section \<open>Quantisation: from brightness to an index\<close>

text \<open>Glyph variant, gen_ascii.py line 194 and lines 200 to 202.\<close>

definition ascii_grayscale_step :: "int \<Rightarrow> error + rat" where
  "ascii_grayscale_step num_foreground_levels =
     (if num_foreground_levels > 0 then fdiv 256 (float_of_int num_foreground_levels)
      else Inr 256)"

definition ascii_element_idx :: "int \<Rightarrow> rat \<Rightarrow> int \<Rightarrow> error + int" where
  "ascii_element_idx num_foreground_levels grayscale_step brightness =
     (if num_foreground_levels > 0
      then and_then (fdiv (float_of_int brightness) grayscale_step)
             (\<lambda>q. Inr (min (py_int q) (num_foreground_levels - 1)))
      else Inr 0)"

definition ascii_brightness_to_index :: "int \<Rightarrow> int \<Rightarrow> error + int" where
  "ascii_brightness_to_index num_foreground_levels brightness =
     and_then (ascii_grayscale_step num_foreground_levels)
       (\<lambda>grayscale_step. ascii_element_idx num_foreground_levels grayscale_step brightness)"

text \<open>Block variant, gen_shader.py line 147 and line 156.\<close>

definition shader_grayscale_step :: "int \<Rightarrow> error + rat" where
  "shader_grayscale_step num_shades = int_truediv 256 num_shades"

definition shader_shade_index :: "int \<Rightarrow> rat \<Rightarrow> int \<Rightarrow> error + int" where
  "shader_shade_index num_shades grayscale_step brightness =
     and_then (fdiv (float_of_int brightness) grayscale_step)
       (\<lambda>q. Inr (min (py_int q) (num_shades - 1)))"

definition shader_brightness_to_index :: "int \<Rightarrow> int \<Rightarrow> error + int" where
  "shader_brightness_to_index num_shades brightness =
     and_then (shader_grayscale_step num_shades)
       (\<lambda>grayscale_step. shader_shade_index num_shades grayscale_step brightness)"

text \<open>
  The specification's formula, in exact arithmetic: \<open>floor(b / (256 / levels))\<close>,
  clamped to \<open>[0, levels - 1]\<close>.
\<close>

definition spec_index :: "int \<Rightarrow> int \<Rightarrow> int" where
  "spec_index levels b =
     min (max 0 \<lfloor>(of_int b :: rat) / (256 / of_int levels)\<rfloor>) (levels - 1)"

section \<open>Grid height\<close>

text \<open>Glyph variant, gen_ascii.py lines 181 to 183.\<close>

definition ascii_grid_height :: "int \<Rightarrow> int \<Rightarrow> int \<Rightarrow> rat \<Rightarrow> error + int" where
  "ascii_grid_height output_width_chars original_width_px original_height_px
       aspect_ratio_correction =
     and_then (if original_width_px > 0 then int_truediv original_height_px original_width_px
               else Inr 1)
       (\<lambda>image_vertical_aspect.
          and_then (fdiv (fmul (float_of_int output_width_chars) image_vertical_aspect)
                      aspect_ratio_correction)
            (\<lambda>q. let output_grid_height_chars = py_int q
                   in Inr (if output_grid_height_chars < 1 then 1
                           else output_grid_height_chars)))"

text \<open>Block variant, gen_shader.py lines 129 to 133.\<close>

definition shader_grid_height :: "int \<Rightarrow> int \<Rightarrow> int \<Rightarrow> rat \<Rightarrow> error + int" where
  "shader_grid_height width original_width original_height aspect_ratio_correction =
     and_then (int_truediv original_height original_width)
       (\<lambda>aspect_ratio.
          let height = py_int (fmul (fmul (float_of_int width) aspect_ratio)
                                 aspect_ratio_correction)
          in Inr (if height < 1 then 1 else height))"

text \<open>
  The specification's formula, in exact arithmetic:
  \<open>round(grid_width * (source_height / source_width) / correction_factor)\<close>, at least 1.
\<close>

definition spec_grid_height :: "int \<Rightarrow> int \<Rightarrow> int \<Rightarrow> rat \<Rightarrow> int" where
  "spec_grid_height grid_width source_width source_height correction_factor =
     max 1 (round (of_int grid_width * (of_int source_height / of_int source_width)
                   / correction_factor))"

section \<open>Rendering in the block variant\<close>

text \<open>
  The canvas of the imaging library: \<open>Image.new("RGB", (w, h), color)\<close> fills it with
  one color, and \<open>ImageDraw.rectangle([x0, y0, x1, y1], fill)\<close> paints the pixels
  of the canvas with \<open>x0 \<le> x \<le> x1\<close> and \<open>y0 \<le> y \<le> y1\<close>.
\<close>

record canvas =
  cv_width :: int
  cv_height :: int
  pixel :: "int \<times> int \<Rightarrow> color"

definition new_canvas :: "int \<Rightarrow> int \<Rightarrow> color \<Rightarrow> canvas" where
  "new_canvas w h c = \<lparr>cv_width = w, cv_height = h, pixel = (\<lambda>p. c)\<rparr>"

definition draw_rectangle :: "canvas \<Rightarrow> int \<Rightarrow> int \<Rightarrow> int \<Rightarrow> int \<Rightarrow> color \<Rightarrow> canvas" where
  "draw_rectangle cv x0 y0 x1 y1 fill =
     cv\<lparr>pixel := (\<lambda>(a, b).
           if 0 \<le> a \<and> a < cv_width cv \<and> 0 \<le> b \<and> b < cv_height cv
              \<and> x0 \<le> a \<and> a \<le> x1 \<and> y0 \<le> b \<and> b \<le> y1
           then fill else pixel cv (a, b))\<rparr>"

text \<open>The body of the nested loops, gen_shader.py lines 150 to 171.\<close>

definition shader_draw_cell ::
  "color list \<Rightarrow> int \<Rightarrow> int \<Rightarrow> int \<Rightarrow> (int \<times> int \<Rightarrow> int) \<Rightarrow> rat \<Rightarrow> canvas \<Rightarrow> int \<times> int
     \<Rightarrow> error + canvas" where
  "shader_draw_cell shades num_shades cell_width cell_height img_resized grayscale_step cv cell =
     (case cell of (x, y) \<Rightarrow>
      let brightness = img_resized (x, y)
      in and_then (shader_shade_index num_shades grayscale_step brightness) (\<lambda>shade_index.
         and_then (py_index shades shade_index) (\<lambda>color.
           let draw_x = x * cell_width;
               draw_y = y * cell_height
           in Inr (if shade_index > 0
                   then draw_rectangle cv draw_x draw_y
                          (draw_x + cell_width - 1) (draw_y + cell_height - 1) color
                   else cv))))"

text \<open>The cells in the order of \<open>for y in range(height): for x in range(width)\<close>.\<close>

definition grid_cells :: "int \<Rightarrow> int \<Rightarrow> (int \<times> int) list" where
  "grid_cells width height =
     concat (map (\<lambda>y. map (\<lambda>x. (x, y)) [0..width - 1]) [0..height - 1])"

text \<open>
  What the imaging library returns for the source file: its size, and the brightness
  of each cell of the grayscale image resized to a grid of the given width and height.
\<close>

record source_image =
  img_size :: "int \<times> int"
  img_resized :: "int \<Rightarrow> int \<Rightarrow> int \<times> int \<Rightarrow> int"

text \<open>gen_shader.py lines 126 to 171.\<close>

definition shader_render ::
  "color list \<Rightarrow> int \<Rightarrow> int \<Rightarrow> int \<Rightarrow> int \<Rightarrow> rat \<Rightarrow> source_image \<Rightarrow> error + canvas" where
  "shader_render shades num_shades width cell_width cell_height aspect_ratio_correction img =
     (case img_size img of (original_width, original_height) \<Rightarrow>
      and_then (shader_grid_height width original_width original_height
                  aspect_ratio_correction) (\<lambda>height.
      and_then (py_index shades 0) (\<lambda>background.
        let output_img = new_canvas (width * cell_width) (height * cell_height) background
        in and_then (shader_grayscale_step num_shades) (\<lambda>grayscale_step.
             for_each (shader_draw_cell shades num_shades cell_width cell_height
                         (img_resized img width height) grayscale_step)
               (grid_cells width height) output_img))))"

section \<open>The drivers: \<open>image_to_ascii_art\<close>\<close>

text \<open>
  What a run does is a trace of events, an uncaught exception if one escapes, and the
  canvas handed to \<open>save\<close> if the run gets there.
\<close>

datatype event = Print string | PrintShades "color list" | OpenImage string | SaveImage string

datatype open_error = FileNotFoundError | OtherOpenError string

record outcome =
  trace :: "event list"
  raised :: "error option"
  saved :: "canvas option"

definition returned :: "event list \<Rightarrow> outcome" where
  "returned evs = \<lparr>trace = evs, raised = None, saved = None\<rparr>"

definition uncaught :: "event list \<Rightarrow> error \<Rightarrow> outcome" where
  "uncaught evs e = \<lparr>trace = evs, raised = Some e, saved = None\<rparr>"

text \<open>
  Block variant, gen_shader.py lines 100 to 184. \<open>open_image\<close> is the file system's
  answer to \<open>Image.open\<close>, \<open>save_error\<close> the exception text of \<open>save\<close> if it fails.
\<close>

definition shader_image_to_ascii_art ::
  "(string \<Rightarrow> open_error + source_image) \<Rightarrow> (string \<Rightarrow> string option) \<Rightarrow>
     string \<Rightarrow> string \<Rightarrow> int \<Rightarrow> int \<Rightarrow> int \<Rightarrow> int \<Rightarrow> string \<Rightarrow> rat \<Rightarrow> outcome" where
  "shader_image_to_ascii_art open_image save_error image_path hex_color width num_shades
       cell_width cell_height output_path aspect_ratio_correction =
     (case hex_to_rgb hex_color of
        Inl (ValueError msg) \<Rightarrow> returned [Print (''Error: '' @ msg)]
      | Inl e \<Rightarrow> uncaught [] e
      | Inr base_rgb \<Rightarrow>
         (case shader_generate_shades base_rgb num_shades d0_1 of
            Inl (ValueError msg) \<Rightarrow> returned [Print (''Error: '' @ msg)]
          | Inl e \<Rightarrow> uncaught [] e
          | Inr shades \<Rightarrow>
             (case open_image image_path of
                Inl FileNotFoundError \<Rightarrow>
                  returned [PrintShades shades, OpenImage image_path,
                    Print (''Error: Input image file not found at '' @ image_path)]
              | Inl (OtherOpenError msg) \<Rightarrow>
                  returned [PrintShades shades, OpenImage image_path,
                    Print (''Error opening image: '' @ msg)]
              | Inr img \<Rightarrow>
                 (case shader_render shades num_shades width cell_width cell_height
                         aspect_ratio_correction img of
                    Inl e \<Rightarrow> uncaught [PrintShades shades, OpenImage image_path] e
                  | Inr cv \<Rightarrow>
                      \<lparr>trace = [PrintShades shades, OpenImage image_path, SaveImage output_path,
                         (case save_error output_path of
                            None \<Rightarrow> Print (''ASCII-style art saved to '' @ output_path)
                          | Some msg \<Rightarrow> Print (''Error saving image: '' @ msg))],
                       raised = None, saved = Some cv\<rparr>))))"

text \<open>
  Glyph variant, gen_ascii.py lines 98 to 115; \<open>rest\<close> stands for lines 117 to 251
  (loading a font, opening the image, drawing the glyphs, saving), which run only
  when none of the three checks returns.
\<close>

definition ascii_image_to_ascii_art ::
  "(color \<Rightarrow> color list \<Rightarrow> outcome) \<Rightarrow> string \<Rightarrow> string \<Rightarrow> outcome" where
  "ascii_image_to_ascii_art rest hex_color charset =
     (case hex_to_rgb hex_color of
        Inl (ValueError msg) \<Rightarrow> returned [Print (''Error: '' @ msg)]
      | Inl e \<Rightarrow> uncaught [] e
      | Inr base_rgb \<Rightarrow>
         if charset = [] then returned [Print ''Error: Character set cannot be empty.'']
         else
           let num_foreground_levels = int (length charset);
               num_total_shades = num_foreground_levels + 1
           in (case ascii_generate_shades base_rgb num_total_shades d0_1 of
                 Inl (ValueError msg) \<Rightarrow> returned [Print (''Error generating shades: '' @ msg)]
               | Inl e \<Rightarrow> uncaught [] e
               | Inr shades \<Rightarrow> rest base_rgb shades))"

section \<open>Facts about rounding to double precision\<close>

lemma rne_cases: "rne q = \<lfloor>q\<rfloor> \<or> rne q = \<lfloor>q\<rfloor> + 1"
  by (simp add: rne_def Let_def)

lemma rne_bounds: "\<bar>of_int (rne q) - q\<bar> \<le> 1/2"
proof -
  define f where "f = \<lfloor>q\<rfloor>"
  have 1: "of_int f \<le> q" "q < of_int f + 1" using floor_correct [of q] by (simp_all add: f_def)
  show ?thesis unfolding rne_def Let_def f_def[symmetric] using 1 by (auto simp: abs_if)
qed

lemma rne_of_int [simp]: "rne (of_int k) = k"
  by (simp add: rne_def)

lemma rne_mono: "q \<le> q' \<Longrightarrow> rne q \<le> rne q'"
proof -
  assume le: "q \<le> q'"
  have fl: "\<lfloor>q\<rfloor> \<le> \<lfloor>q'\<rfloor>" using le by (rule floor_mono)
  show ?thesis
  proof (cases "\<lfloor>q\<rfloor> = \<lfloor>q'\<rfloor>")
    case True
    then show ?thesis using le unfolding rne_def Let_def by (auto simp: not_less)
  next
    case False
    then have "\<lfloor>q\<rfloor> + 1 \<le> \<lfloor>q'\<rfloor>" using fl by linarith
    moreover have "rne q \<le> \<lfloor>q\<rfloor> + 1" using rne_cases [of q] by linarith
    moreover have "\<lfloor>q'\<rfloor> \<le> rne q'" using rne_cases [of q'] by linarith
    ultimately show ?thesis by linarith
  qed
qed

lemma rne_minus: "rne (- q) = - rne q"
proof (cases "q = of_int \<lfloor>q\<rfloor>")
  case True
  then obtain k where "q = of_int k" ..
  then have "- q = of_int (- k)" by simp
  then show ?thesis using \<open>q = of_int k\<close> by (simp only: rne_of_int)
next
  case False
  define f where "f = \<lfloor>q\<rfloor>"
  have 0: "of_int f \<le> q" "q < of_int f + 1" using floor_correct [of q] by (simp_all add: f_def)
  have "of_int f \<noteq> q" using False unfolding f_def by (rule not_sym)
  with 0 have 1: "of_int f < q" by simp
  have 2: "\<lfloor>- q\<rfloor> = - f - 1" using 0 1 by (intro floor_unique) auto
  show ?thesis unfolding rne_def Let_def 2 f_def[symmetric] using 0 1 by (auto simp: not_less)
qed

lemma bitlen_pos: "0 < n \<Longrightarrow> 1 \<le> bitlen n"
  by (auto simp: bitlen_alt_def)

lemma ilog2_bounds:
  assumes "0 < x"
  shows "2 powi (ilog2 x) \<le> x" and "x < 2 powi (ilog2 x + 1)"
proof -
  have "2 powi (ilog2 x) \<le> x \<and> x < 2 powi (ilog2 x + 1)"
  proof (cases "1 \<le> x")
    case True
    define n where "n = \<lfloor>x\<rfloor>"
    have pos: "0 < n" using True by (simp add: n_def)
    have fl: "of_int n \<le> x" "x < of_int (n + 1)" using floor_correct [of x] by (simp_all add: n_def)
    have bl: "1 \<le> bitlen n" using pos by (rule bitlen_pos)
    have il: "ilog2 x = bitlen n - 1" using True by (simp add: ilog2_def n_def)
    from bitlen_bounds [OF pos] have b: "2 ^ nat (bitlen n - 1) \<le> n" "n + 1 \<le> 2 ^ nat (bitlen n)" by simp_all
    have "(2::rat) powi (bitlen n - 1) = of_int (2 ^ nat (bitlen n - 1))"
      using bl by (simp add: power_int_nonneg_exp)
    also have "\<dots> \<le> of_int n" using b(1) by (simp only: of_int_le_iff)
    finally have lo: "2 powi (ilog2 x) \<le> x" using fl(1) il by simp
    have "of_int (n + 1) \<le> (of_int (2 ^ nat (bitlen n)) :: rat)" using b(2) by (simp only: of_int_le_iff)
    also have "\<dots> = 2 powi (bitlen n)" using bl by (simp add: power_int_nonneg_exp)
    finally have hi: "x < 2 powi (ilog2 x + 1)" using fl(2) il by simp
    show ?thesis using lo hi ..
  next
    case False
    define y where "y = 1 / x"
    define m where "m = \<lceil>y\<rceil>"
    have y1: "1 < y" using False assms by (simp add: y_def)
    have ce: "of_int m - 1 < y" "y \<le> of_int m" using ceiling_correct [of y] by (simp_all add: m_def)
    have "(1::rat) < of_int m" using y1 ce(2) by linarith
    then have pos: "0 < m - 1" by simp
    have bl: "1 \<le> bitlen (m - 1)" using pos by (rule bitlen_pos)
    have il: "ilog2 x = - bitlen (m - 1)" using False by (simp add: ilog2_def m_def y_def)
    from bitlen_bounds [OF pos] have b: "2 ^ nat (bitlen (m - 1) - 1) \<le> m - 1" "m \<le> 2 ^ nat (bitlen (m - 1))" by simp_all
    have "y \<le> of_int m" by (rule ce(2))
    also have "\<dots> \<le> (of_int (2 ^ nat (bitlen (m - 1))) :: rat)" using b(2) by (simp only: of_int_le_iff)
    also have "\<dots> = 2 powi (bitlen (m - 1))" using bl by (simp add: power_int_nonneg_exp)
    finally have "1 / x \<le> 2 powi (bitlen (m - 1))" by (simp add: y_def)
    then have lo: "2 powi (ilog2 x) \<le> x" using assms il
      by (simp add: power_int_minus field_simps)
    have "(2::rat) powi (bitlen (m - 1) - 1) = of_int (2 ^ nat (bitlen (m - 1) - 1))"
      using bl by (simp add: power_int_nonneg_exp)
    also have "\<dots> \<le> of_int (m - 1)" using b(1) by (simp only: of_int_le_iff)
    also have "\<dots> < y" using ce(1) by simp
    finally have "2 powi (bitlen (m - 1) - 1) < 1 / x" by (simp add: y_def)
    then have "x < 1 / 2 powi (bitlen (m - 1) - 1)" using assms
      by (simp add: field_simps)
    also have "\<dots> = 2 powi (- (bitlen (m - 1) - 1))"
      by (simp only: power_int_minus_divide)
    finally have hi: "x < 2 powi (ilog2 x + 1)" using il by simp
    show ?thesis using lo hi ..
  qed
  then show "2 powi (ilog2 x) \<le> x" and "x < 2 powi (ilog2 x + 1)" by simp_all
qed


lemma ilog2_unique:
  assumes "0 < x" "2 powi a \<le> x" "x < 2 powi (a + 1)"
  shows "ilog2 x = a"
proof (rule ccontr)
  assume ne: "ilog2 x \<noteq> a"
  note b = ilog2_bounds [OF assms(1)]
  show False
  proof (cases "ilog2 x < a")
    case True
    then have "(2::rat) powi (ilog2 x + 1) \<le> 2 powi a"
      by (intro power_int_increasing) simp_all
    with b(2) assms(2) show False by linarith
  next
    case False
    with ne have "a + 1 \<le> ilog2 x" by linarith
    then have "(2::rat) powi (a + 1) \<le> 2 powi (ilog2 x)"
      by (intro power_int_increasing) simp_all
    with b(1) assms(3) show False by linarith
  qed
qed

lemma ilog2_mono:
  assumes "0 < x" "x \<le> y"
  shows "ilog2 x \<le> ilog2 y"
proof (rule ccontr)
  assume "\<not> ilog2 x \<le> ilog2 y"
  then have "ilog2 y + 1 \<le> ilog2 x" by linarith
  then have "(2::rat) powi (ilog2 y + 1) \<le> 2 powi (ilog2 x)"
    by (intro power_int_increasing) simp_all
  moreover have "0 < y" using assms by linarith
  ultimately show False
    using ilog2_bounds(1) [OF assms(1)] ilog2_bounds(2) [of y] assms(2) by linarith
qed

lemma ilog2_scale:
  assumes "0 < x"
  shows "ilog2 (x * 2 powi k) = ilog2 x + k"
proof (rule ilog2_unique)
  show "0 < x * 2 powi k" using assms by simp
  have "2 powi (ilog2 x + k) = 2 powi (ilog2 x) * (2::rat) powi k"
    by (simp add: power_int_add)
  also have "\<dots> \<le> x * 2 powi k"
    using ilog2_bounds(1) [OF assms] by (intro mult_right_mono) simp_all
  finally show "2 powi (ilog2 x + k) \<le> x * 2 powi k" .
  have "x * 2 powi k < 2 powi (ilog2 x + 1) * (2::rat) powi k"
    using ilog2_bounds(2) [OF assms] by (intro mult_strict_right_mono) simp_all
  also have "\<dots> = 2 powi (ilog2 x + k + 1)"
    by (simp add: power_int_add)
  finally show "x * 2 powi k < 2 powi (ilog2 x + k + 1)" .
qed

lemma fulp_pos: "0 < fulp x"
  by (simp add: fulp_def)

lemma fround_alt: "x \<noteq> 0 \<Longrightarrow> fround x = of_int (rne (x / fulp x)) * fulp x"
  by (simp add: fround_def)

lemma fround_0 [simp]: "fround 0 = 0"
  by (simp add: fround_def)

lemma fround_minus: "fround (- x) = - fround x"
  by (cases "x = 0") (simp_all add: fround_alt fulp_def rne_minus)

lemma fround_scale: "fround (x * 2 powi k) = fround x * 2 powi k"
proof (cases "x = 0")
  case True
  then show ?thesis by simp
next
  case False
  then have pos: "0 < \<bar>x\<bar>" by simp
  have u: "fulp (x * 2 powi k) = fulp x * 2 powi k"
    using ilog2_scale [OF pos, of k]
    by (simp add: fulp_def abs_mult power_int_add power_int_diff)
  have nz: "x * 2 powi k \<noteq> 0" using False by simp
  show ?thesis
    unfolding fround_alt [OF nz] fround_alt [OF False] u by simp
qed

lemma fround_err: "\<bar>fround x - x\<bar> \<le> fulp x / 2"
proof (cases "x = 0")
  case True
  then show ?thesis using fulp_pos [of 0] by simp
next
  case False
  have "fround x - x = (of_int (rne (x / fulp x)) - x / fulp x) * fulp x"
    using fulp_pos [of x] by (simp add: fround_alt [OF False] field_simps)
  then have "\<bar>fround x - x\<bar> = \<bar>of_int (rne (x / fulp x)) - x / fulp x\<bar> * fulp x"
    using fulp_pos [of x] by (simp add: abs_mult)
  also have "\<dots> \<le> 1 / 2 * fulp x"
    using rne_bounds [of "x / fulp x"] fulp_pos [of x] by (intro mult_right_mono) simp_all
  finally show ?thesis by simp
qed

lemma fulp_le: "fulp x \<le> \<bar>x\<bar> / 2 ^ 52" if "x \<noteq> 0"
proof -
  have pos: "0 < \<bar>x\<bar>" using that by simp
  have "fulp x = 2 powi (ilog2 \<bar>x\<bar>) / 2 ^ 52"
    by (simp add: fulp_def power_int_diff)
  also have "\<dots> \<le> \<bar>x\<bar> / 2 ^ 52"
    using ilog2_bounds(1) [OF pos] by (intro divide_right_mono) simp_all
  finally show ?thesis .
qed

lemma fround_rel_err: "\<bar>fround x - x\<bar> \<le> \<bar>x\<bar> / 2 ^ 53"
proof (cases "x = 0")
  case True
  then show ?thesis by simp
next
  case False
  have "\<bar>fround x - x\<bar> \<le> fulp x / 2" by (rule fround_err)
  also have "\<dots> \<le> (\<bar>x\<bar> / 2 ^ 52) / 2" using fulp_le [OF False] by simp
  finally show ?thesis by simp
qed

lemma fround_lower:
  assumes "0 < x"
  shows "2 powi (ilog2 x) \<le> fround x"
proof -
  have nz: "x \<noteq> 0" using assms by simp
  have ax: "\<bar>x\<bar> = x" using assms by simp
  have u: "fulp x = 2 powi (ilog2 x) / 2 ^ 52" by (simp add: fulp_def ax power_int_diff)
  have "(2::rat) ^ 52 = 2 powi (ilog2 x) / fulp x" by (simp add: u)
  also have "\<dots> \<le> x / fulp x"
    using ilog2_bounds(1) [OF assms] fulp_pos [of x] by (intro divide_right_mono) simp_all
  finally have "rne (of_int (2 ^ 52)) \<le> rne (x / fulp x)" by (intro rne_mono) simp
  then have "(2::int) ^ 52 \<le> rne (x / fulp x)" by (simp only: rne_of_int)
  then have "(of_int (2 ^ 52) :: rat) \<le> of_int (rne (x / fulp x))" by (simp only: of_int_le_iff)
  then have "of_int (2 ^ 52) * fulp x \<le> of_int (rne (x / fulp x)) * fulp x"
    using fulp_pos [of x] by (intro mult_right_mono) simp_all
  then show ?thesis by (simp add: fround_alt [OF nz] u)
qed

lemma fround_upper:
  assumes "0 < x"
  shows "fround x \<le> 2 powi (ilog2 x + 1)"
proof -
  have nz: "x \<noteq> 0" using assms by simp
  have ax: "\<bar>x\<bar> = x" using assms by simp
  have "(2::rat) powi (ilog2 x + 1) = 2 powi (ilog2 x - 52) * 2 powi 53"
    by (subst power_int_add [symmetric]) (simp_all add: add.commute)
  then have u: "fulp x = 2 powi (ilog2 x + 1) / 2 ^ 53" by (simp add: fulp_def ax)
  have "x / fulp x \<le> 2 powi (ilog2 x + 1) / fulp x"
    using ilog2_bounds(2) [OF assms] fulp_pos [of x] by (intro divide_right_mono) simp_all
  also have "\<dots> = 2 ^ 53" by (simp add: u)
  finally have "rne (x / fulp x) \<le> rne (of_int (2 ^ 53))" by (intro rne_mono) simp
  then have "rne (x / fulp x) \<le> (2::int) ^ 53" by (simp only: rne_of_int)
  then have "(of_int (rne (x / fulp x)) :: rat) \<le> of_int (2 ^ 53)" by (simp only: of_int_le_iff)
  then have "of_int (rne (x / fulp x)) * fulp x \<le> of_int (2 ^ 53) * fulp x"
    using fulp_pos [of x] by (intro mult_right_mono) simp_all
  then show ?thesis by (simp add: fround_alt [OF nz] u)
qed

lemma fround_pos: "0 < x \<Longrightarrow> 0 < fround x"
  using fround_lower [of x] zero_less_power_int [of "2::rat" "ilog2 x"] by linarith

lemma fround_mono_pos:
  assumes "0 < x" "x \<le> y"
  shows "fround x \<le> fround y"
proof -
  have ypos: "0 < y" using assms by linarith
  have le: "ilog2 x \<le> ilog2 y" using assms by (rule ilog2_mono)
  show ?thesis
  proof (cases "ilog2 x = ilog2 y")
    case True
    have nz: "x \<noteq> 0" "y \<noteq> 0" using assms ypos by simp_all
    have u: "fulp y = fulp x" using True assms(1) ypos by (simp add: fulp_def)
    have "x / fulp x \<le> y / fulp x" using assms(2) fulp_pos [of x] by (intro divide_right_mono) simp_all
    then have "rne (x / fulp x) \<le> rne (y / fulp x)" by (rule rne_mono)
    then have "(of_int (rne (x / fulp x)) :: rat) \<le> of_int (rne (y / fulp x))" by (simp only: of_int_le_iff)
    then have "of_int (rne (x / fulp x)) * fulp x \<le> of_int (rne (y / fulp x)) * fulp x"
      using fulp_pos [of x] by (intro mult_right_mono) simp_all
    then show ?thesis by (simp add: fround_alt nz u)
  next
    case False
    with le have "ilog2 x + 1 \<le> ilog2 y" by linarith
    then have "(2::rat) powi (ilog2 x + 1) \<le> 2 powi (ilog2 y)"
      by (intro power_int_increasing) simp_all
    with fround_upper [OF assms(1)] fround_lower [OF ypos] show ?thesis by linarith
  qed
qed

lemma fround_nonneg: "0 \<le> x \<Longrightarrow> 0 \<le> fround x"
  using fround_pos [of x] by (cases "x = 0") simp_all

lemma fround_mono:
  assumes "x \<le> y"
  shows "fround x \<le> fround y"
proof -
  consider "0 < x" | "x \<le> 0" "0 \<le> y" | "y < 0" by linarith
  then show ?thesis
  proof cases
    case 1
    then show ?thesis using assms by (rule fround_mono_pos)
  next
    case 2
    have "0 \<le> fround (- x)" using 2(1) by (intro fround_nonneg) simp
    then have "fround x \<le> 0" by (simp add: fround_minus)
    moreover have "0 \<le> fround y" using 2(2) by (rule fround_nonneg)
    ultimately show ?thesis by linarith
  next
    case 3
    have "fround (- y) \<le> fround (- x)" using 3 assms by (intro fround_mono_pos) simp_all
    then show ?thesis by (simp add: fround_minus)
  qed
qed

lemma fround_int_pow:
  assumes "\<bar>m\<bar> < 2 ^ 53"
  shows "fround (of_int m * 2 powi k) = of_int m * 2 powi k"
proof (cases "m = 0")
  case True
  then show ?thesis by simp
next
  case False
  define a where "a = (of_int \<bar>m\<bar> :: rat)"
  have apos: "0 < a" using False by (simp add: a_def)
  define L where "L = ilog2 a"
  have "(2::rat) powi L \<le> a" unfolding L_def using apos by (rule ilog2_bounds)
  also have "a < of_int (2 ^ 53)" using assms unfolding a_def by (simp only: of_int_less_iff)
  finally have "(2::rat) powi L < 2 powi 53" by simp
  then have L53: "L < 53" by (rule power_int_le_imp_less_exp [rotated]) simp_all
  have "1 \<le> \<bar>m\<bar>" using False by linarith
  then have "1 \<le> a" unfolding a_def by (simp only: of_int_1_le_iff)
  then have "ilog2 1 \<le> L" unfolding L_def by (intro ilog2_mono) simp_all
  moreover have "ilog2 1 = 0" by (rule ilog2_unique) simp_all
  ultimately have L0: "0 \<le> L" by simp
  have nz: "of_int m \<noteq> (0::rat)" using False by simp
  have fr: "fround (of_int m) = (of_int m :: rat)"
  proof -
    have am: "\<bar>of_int m :: rat\<bar> = a" by (simp add: a_def)
    have "fulp (of_int m) = 2 powi (- (52 - L))" by (simp add: fulp_def am L_def)
    also have "\<dots> = 1 / 2 powi (52 - L)" by (simp only: power_int_minus_divide)
    also have "\<dots> = 1 / 2 ^ nat (52 - L)" using L53 by (simp add: power_int_nonneg_exp)
    finally have u: "fulp (of_int m) = 1 / 2 ^ nat (52 - L)" .
    have "of_int m / fulp (of_int m) = (of_int (m * 2 ^ nat (52 - L)) :: rat)"
      by (simp add: u)
    then have "rne (of_int m / fulp (of_int m)) = m * 2 ^ nat (52 - L)"
      by (simp only: rne_of_int)
    then show ?thesis by (simp add: fround_alt [OF nz] u)
  qed
  show ?thesis by (simp only: fround_scale fr)
qed

lemma fround_of_int:
  assumes "\<bar>m\<bar> < 2 ^ 53"
  shows "fround (of_int m) = of_int m"
  using fround_int_pow [OF assms, of 0] by simp

section \<open>The shade ramp\<close>

subsection \<open>More on rounding\<close>

lemma fround_idem_pos:
  assumes "0 < x"
  shows "fround (fround x) = fround x"
proof -
  have nz: "x \<noteq> 0" using assms by simp
  have ax: "\<bar>x\<bar> = x" using assms by simp
  define m where "m = rne (x / fulp x)"
  have fr: "fround x = of_int m * 2 powi (ilog2 x - 52)"
    by (simp add: fround_alt [OF nz] m_def fulp_def ax)
  have up: "of_int m * 2 powi (ilog2 x - 52) \<le> (2::rat) powi (ilog2 x + 1)"
    using fround_upper [OF assms] by (simp add: fr)
  have "(2::rat) powi (ilog2 x + 1) = 2 powi (ilog2 x - 52) * 2 powi 53"
    by (subst power_int_add [symmetric]) (simp_all add: add.commute)
  with up have "of_int m * 2 powi (ilog2 x - 52) \<le> (2::rat) ^ 53 * 2 powi (ilog2 x - 52)"
    by (simp add: mult.commute)
  then have "(of_int m :: rat) \<le> 2 ^ 53"
    by (rule mult_right_le_imp_le) simp
  then have "(of_int m :: rat) \<le> of_int (2 ^ 53)" by simp
  then have m_le: "m \<le> 2 ^ 53" by (simp only: of_int_le_iff)
  have "0 < fround x" using assms by (rule fround_pos)
  then have "0 < (of_int m :: rat) * 2 powi (ilog2 x - 52)" unfolding fr .
  then have "0 < (of_int m :: rat)" by (rule zero_less_mult_pos2) simp
  then have m_pos: "0 < m" by simp
  show ?thesis
  proof (cases "m = 2 ^ 53")
    case True
    have "fround x = of_int 1 * 2 powi (ilog2 x + 1)"
      unfolding fr True
      using \<open>(2::rat) powi (ilog2 x + 1) = 2 powi (ilog2 x - 52) * 2 powi 53\<close>
      by (simp add: mult.commute)
    then show ?thesis using fround_int_pow [of 1 "ilog2 x + 1"] by simp
  next
    case False
    then have "\<bar>m\<bar> < 2 ^ 53" using m_le m_pos by linarith
    then show ?thesis unfolding fr by (rule fround_int_pow)
  qed
qed

lemma fround_idem [simp]: "fround (fround x) = fround x"
proof -
  consider "0 < x" | "x = 0" | "x < 0" by linarith
  then show ?thesis
  proof cases
    case 1
    then show ?thesis by (rule fround_idem_pos)
  next
    case 2
    then show ?thesis by simp
  next
    case 3
    then have "fround (fround (- x)) = fround (- x)" by (intro fround_idem_pos) simp
    then show ?thesis by (simp add: fround_minus)
  qed
qed

lemma fround_half: "fround (x / 2) = fround x / 2"
  using fround_scale [of x "- 1"] by simp

lemma fround_eq_0_iff [simp]: "fround x = 0 \<longleftrightarrow> x = 0"
proof
  assume z: "fround x = 0"
  show "x = 0"
  proof (rule ccontr)
    assume "x \<noteq> 0"
    then consider "0 < x" | "0 < - x" by linarith
    then show False
    proof cases
      case 1
      then show False using fround_pos [of x] z by simp
    next
      case 2
      then show False using fround_pos [of "- x"] z by (simp add: fround_minus)
    qed
  qed
qed simp

lemma d0_1_value: "d0_1 = 3602879701896397 / 36028797018963968"
  by code_simp

lemma py_int_floor: "0 \<le> x \<Longrightarrow> py_int x = \<lfloor>x\<rfloor>"
  by (simp add: py_int_def)

lemma float_of_int_small: "\<bar>n\<bar> < 2 ^ 53 \<Longrightarrow> float_of_int n = of_int n"
  by (simp add: float_of_int_def fround_of_int)

lemma scale_channel_tenth:
  assumes "0 \<le> r" "r \<le> 255"
  shows "scale_channel r d0_1 = r div 10"
proof -
  define k where "k = r div 10"
  define j where "j = r mod 10"
  have r: "r = 10 * k + j" by (simp add: k_def j_def)
  have j: "0 \<le> j" "j \<le> 9" by (simp_all add: j_def) 
  have k: "0 \<le> k" "k \<le> 25" using assms by (simp_all add: k_def) 
  define x :: rat where "x = of_int r * d0_1"
  have kq: "(0::rat) \<le> of_int k" "(of_int k :: rat) \<le> 25" using k by simp_all
  have jq: "(0::rat) \<le> of_int j" "(of_int j :: rat) \<le> 9" using j by simp_all
  have xr: "x = (10 * of_int k + of_int j) * (3602879701896397 / 36028797018963968)"
    by (simp add: x_def r d0_1_value)
  have lo: "of_int k \<le> x" unfolding xr using kq jq by (simp add: field_simps)
  have hi: "x \<le> of_int (16 * k + 15) * 2 powi (- 4)" unfolding xr using kq jq
    by (simp add: field_simps)
  have "\<bar>k\<bar> < 2 ^ 53" using k by simp
  from fround_of_int [OF this] fround_mono [OF lo] have flo: "of_int k \<le> fround x" by simp
  have "\<bar>16 * k + 15\<bar> < 2 ^ 53" using k by simp
  from fround_int_pow [OF this, of "- 4"] fround_mono [OF hi]
  have "fround x \<le> of_int (16 * k + 15) * 2 powi (- 4)" by simp
  then have fhi: "fround x < of_int k + 1" by (simp add: field_simps)
  have "\<lfloor>fround x\<rfloor> = k" using flo fhi by (intro floor_unique) simp_all
  moreover have "0 \<le> fround x" using flo kq by linarith
  moreover have "\<bar>r\<bar> < 2 ^ 53" using assms by simp
  ultimately show ?thesis
    by (simp add: scale_channel_def fmul_def float_of_int_small x_def [symmetric] py_int_floor k_def)
qed

lemma and_then_Inr [simp]: "and_then (Inr v) f = f v"
  by (simp add: and_then_def)

lemma and_then_Inl [simp]: "and_then (Inl e) f = Inl e"
  by (simp add: and_then_def)

lemma and_then_eq_Inr_iff: "and_then m f = Inr y \<longleftrightarrow> (\<exists>v. m = Inr v \<and> f v = Inr y)"
  by (cases m) simp_all

lemma collect_Inr_iff: "collect f ns = Inr xs \<longleftrightarrow> list_all2 (\<lambda>i x. f i = Inr x) ns xs"
proof (induction ns arbitrary: xs)
  case Nil
  then show ?case by auto
next
  case (Cons i ns)
  show ?case
    by (cases xs) (auto simp: and_then_eq_Inr_iff Cons.IH)
qed

lemma collect_total:
  assumes "\<And>i. i \<in> set ns \<Longrightarrow> \<exists>v. f i = Inr v \<and> P v"
  shows "\<exists>xs. collect f ns = Inr xs \<and> length xs = length ns \<and> list_all P xs"
  using assms
proof (induction ns)
  case Nil
  then show ?case by simp
next
  case (Cons i ns)
  from Cons.prems [of i] obtain v where v: "f i = Inr v" "P v" by auto
  from Cons.IH Cons.prems obtain xs where xs: "collect f ns = Inr xs" "length xs = length ns" "list_all P xs"
    by auto
  show ?case using v xs by simp
qed

lemma clamp255_range: "0 \<le> clamp255 v \<and> clamp255 v \<le> 255"
  by (simp add: clamp255_def)

lemma clamp255_id: "0 \<le> v \<Longrightarrow> v \<le> 255 \<Longrightarrow> clamp255 v = v"
  by (simp add: clamp255_def)

lemma int_truediv_Inr: "b \<noteq> 0 \<Longrightarrow> int_truediv a b = Inr (fround (of_int a / of_int b))"
  by (simp add: int_truediv_def)

lemma ascii_fg_shade_valid:
  "\<exists>c. ascii_fg_shade base_rgb bg nf i = Inr c \<and> valid_color c"
proof -
  obtain base_r base_g base_b where b: "base_rgb = (base_r, base_g, base_b)" by (cases base_rgb)
  obtain bg_r bg_g bg_b where g: "bg = (bg_r, bg_g, bg_b)" by (cases bg)
  show ?thesis
    unfolding ascii_fg_shade_def b g
    by (simp add: Let_def int_truediv_def valid_color_def clamp255_range)
qed

lemma background_tenth:
  assumes "valid_color base_rgb"
  shows "background_shade base_rgb d0_1 = spec_background base_rgb"
    and "channels_le (background_shade base_rgb d0_1) base_rgb"
    and "valid_color (background_shade base_rgb d0_1)"
proof -
  obtain r g b where c: "base_rgb = (r, g, b)" by (cases base_rgb)
  have v: "0 \<le> r" "r \<le> 255" "0 \<le> g" "g \<le> 255" "0 \<le> b" "b \<le> 255"
    using assms by (simp_all add: c valid_color_def)
  have e: "py_int (of_int n / 10) = n div 10" if "0 \<le> n" for n
  proof -
    have "\<lfloor>(of_int n :: rat) / of_int 10\<rfloor> = n div 10" by (rule floor_divide_of_int_eq)
    then show ?thesis using that by (simp add: py_int_def)
  qed
  show "background_shade base_rgb d0_1 = spec_background base_rgb"
    using v by (simp add: c background_shade_def spec_background_def scale_channel_tenth e)
  have d: "n div 10 \<le> n" "0 \<le> n div 10" if "0 \<le> n" for n :: int
    using that by linarith+
  have d': "n div 10 \<le> 255" if "n \<le> 255" for n :: int
    using that by linarith
  show "channels_le (background_shade base_rgb d0_1) base_rgb"
    using v by (simp add: c background_shade_def channels_le_def scale_channel_tenth d)
  show "valid_color (background_shade base_rgb d0_1)"
    using v by (simp add: c background_shade_def valid_color_def scale_channel_tenth d d')
qed

lemma ascii_ramp:
  assumes "valid_color base_rgb" "2 \<le> n"
  shows "\<exists>shades. ascii_generate_shades base_rgb n d0_1 = Inr shades
           \<and> ramp_contract base_rgb n shades"
proof (cases "n = 2")
  case True
  then show ?thesis using assms background_tenth [OF assms(1)]
    by (simp add: ascii_generate_shades_def ramp_contract_def)
next
  case False
  define bg where "bg = background_shade base_rgb d0_1"
  from collect_total [of "[0..n - 1 - 1]" "ascii_fg_shade base_rgb bg (n - 1)" valid_color]
    ascii_fg_shade_valid
  obtain fg where fg: "collect (ascii_fg_shade base_rgb bg (n - 1)) [0..n - 1 - 1] = Inr fg"
    "length fg = length [0..n - 1 - 1]" "list_all valid_color fg" by blast
  have len: "length fg = nat (n - 1)" using fg(2) assms(2) by simp
  have "ascii_generate_shades base_rgb n d0_1 = Inr (bg # fg)"
    using False assms(2) fg(1) by (simp add: ascii_generate_shades_def Let_def bg_def)
  moreover have "ramp_contract base_rgb n (bg # fg)"
    using background_tenth [OF assms(1)] fg(3) len assms(2)
    by (simp add: ramp_contract_def bg_def)
  ultimately show ?thesis by blast
qed

lemma float_of_int_pos: "0 < n \<Longrightarrow> 0 < float_of_int n"
  by (simp add: float_of_int_def fround_pos)

lemma float_of_int_nonneg: "0 \<le> n \<Longrightarrow> 0 \<le> float_of_int n"
  by (simp add: float_of_int_def fround_nonneg)

lemma fround_float_of_int [simp]: "fround (float_of_int n) = float_of_int n"
  by (simp add: float_of_int_def)

lemma mid_point_index:
  "fdiv (float_of_int n) 2 = Inr (float_of_int n / 2)"
  by (simp add: fdiv_def fround_half)

lemma fsub_mid: "fsub (float_of_int n) (float_of_int n / 2) = float_of_int n / 2"
  by (simp add: fsub_def fround_half)

lemma shader_shade_valid:
  assumes "2 \<le> n"
  shows "\<exists>c. shader_shade base_rgb bg n i = Inr c \<and> valid_color c"
proof -
  obtain base_r base_g base_b where b: "base_rgb = (base_r, base_g, base_b)" by (cases base_rgb)
  obtain bg_r bg_g bg_b where g: "bg = (bg_r, bg_g, bg_b)" by (cases bg)
  have pos: "0 < float_of_int (n - 1)" using assms by (intro float_of_int_pos) simp
  then have nz: "float_of_int (n - 1) \<noteq> 0" by simp
  show ?thesis
    unfolding shader_shade_def b g
    using nz by (simp add: fround_half fsub_mid fdiv_def valid_color_def)
qed

lemma and_then_total:
  "\<exists>v. m = Inr v \<Longrightarrow> (\<And>v. \<exists>y. f v = Inr y) \<Longrightarrow> \<exists>y. and_then m f = Inr y"
  by auto

lemma shader_first_pass_total: "\<exists>xs. shader_first_pass base_rgb bg n = Inr xs"
proof -
  obtain base_r base_g base_b where b: "base_rgb = (base_r, base_g, base_b)" by (cases base_rgb)
  obtain bg_r bg_g bg_b where g: "bg = (bg_r, bg_g, bg_b)" by (cases bg)
  have c: "\<exists>xs. collect (\<lambda>i. and_then (int_truediv i (s + 1)) (\<lambda>factor. Inr (h factor))) ns = Inr xs"
    if "0 < s" for s and h :: "rat \<Rightarrow> color" and ns
  proof -
    define f where "f = (\<lambda>i. and_then (int_truediv i (s + 1)) (\<lambda>factor. Inr (h factor)))"
    have "s + 1 \<noteq> 0" using that by simp
    then have "f i = Inr (h (fround (of_int i / of_int (s + 1))))" for i
      by (simp add: f_def int_truediv_def)
    then have "\<exists>v. f i = Inr v \<and> True" for i
      by blast
    then have "\<exists>xs. collect f ns = Inr xs \<and> length xs = length ns \<and> list_all (\<lambda>_. True) xs"
      by (intro collect_total) 
    then show ?thesis unfolding f_def by blast
  qed
  have c': "\<exists>xs. (if 0 < s then collect (\<lambda>i. and_then (int_truediv i (s + 1))
                  (\<lambda>factor. Inr (h factor))) ns else Inr []) = Inr xs"
    for s and h :: "rat \<Rightarrow> color" and ns
    using c [of s h ns] by (cases "0 < s") simp_all
  show ?thesis
    unfolding shader_first_pass_def b g Let_def prod.case
    apply (rule and_then_total)
     apply (rule c')
    apply (rule and_then_total)
     apply (rule c')
    apply blast
    done
qed

lemma shader_second_pass_ramp:
  assumes "valid_color base_rgb" "2 \<le> n"
  shows "\<exists>shades. shader_second_pass base_rgb bg n d0_1 = Inr shades
           \<and> ramp_contract base_rgb n shades"
proof -
  from collect_total [of "[0..n - 1]" "shader_shade base_rgb bg n" valid_color]
    shader_shade_valid [OF assms(2)]
  obtain xs where xs: "collect (shader_shade base_rgb bg n) [0..n - 1] = Inr xs"
    "length xs = length [0..n - 1]" "list_all valid_color xs" by blast
  have len: "length xs = nat n" using xs(2) assms(2) by simp
  then obtain x rest where xr: "xs = x # rest" using assms(2) by (cases xs) auto
  have "shader_second_pass base_rgb bg n d0_1 = Inr (background_shade base_rgb d0_1 # rest)"
    by (simp add: shader_second_pass_def xs(1) xr)
  moreover have "ramp_contract base_rgb n (background_shade base_rgb d0_1 # rest)"
    using background_tenth [OF assms(1)] xs(3) len xr
    by (simp add: ramp_contract_def)
  ultimately show ?thesis by blast
qed

lemma shader_generate_shades_eq:
  assumes "2 \<le> n"
  shows "shader_generate_shades base_rgb n f
           = shader_second_pass base_rgb (background_shade base_rgb f) n f"
proof -
  obtain xs where "shader_first_pass base_rgb (background_shade base_rgb f) n = Inr xs"
    using shader_first_pass_total by blast
  then show ?thesis using assms by (simp add: shader_generate_shades_def Let_def)
qed

subsection \<open>Two shades\<close>

lemma fround_numeral:
  "numeral k < (2::int) ^ 53 \<Longrightarrow> fround (numeral k) = numeral k"
  using fround_of_int [of "numeral k"] by simp

lemma fround_1 [simp]: "fround 1 = 1"
  using fround_of_int [of 1] by simp

lemma fround_255 [simp]: "fround 255 = 255"
  by (rule fround_numeral) simp

lemma fround_half_1 [simp]: "fround (1 / 2) = 1 / 2"
  by (simp add: fround_half)

lemma interp_channel_one:
  assumes "\<bar>a\<bar> < 2 ^ 52" "\<bar>b\<bar> < 2 ^ 52"
  shows "interp_channel a b 1 = b"
proof -
  have 1: "\<bar>a\<bar> < 2 ^ 53" "\<bar>b - a\<bar> < 2 ^ 53" "\<bar>b\<bar> < 2 ^ 53" using assms by simp_all
  have fa: "float_of_int a = of_int a" "float_of_int (b - a) = of_int (b - a)"
    using 1 by (simp_all only: float_of_int_small)
  have s: "(of_int a :: rat) + of_int (b - a) = of_int b" by simp
  have "interp_channel a b 1 = py_int (of_int b)"
    unfolding interp_channel_def fa fmul_def fadd_def mult_1_right
      fround_of_int [OF 1(2)] s fround_of_int [OF 1(3)] ..
  then show ?thesis by (simp add: py_int_def)
qed

lemma interp_channel_zero:
  assumes "\<bar>a\<bar> < 2 ^ 53"
  shows "interp_channel a b 0 = a"
  using assms by (simp add: interp_channel_def fadd_def fmul_def float_of_int_small fround_of_int py_int_def)

lemma valid_channel_small: "0 \<le> r \<Longrightarrow> r \<le> 255 \<Longrightarrow> \<bar>r\<bar> < 2 ^ 52" for r :: int
  by simp

lemma shader_shade_two_last:
  assumes "valid_color base_rgb"
  shows "shader_shade base_rgb bg 2 1 = Inr (255, 255, 255)"
proof -
  obtain r g b where c: "base_rgb = (r, g, b)" by (cases base_rgb)
  obtain bg_r bg_g bg_b where g: "bg = (bg_r, bg_g, bg_b)" by (cases bg)
  have v: "0 \<le> r" "r \<le> 255" "0 \<le> g" "g \<le> 255" "0 \<le> b" "b \<le> 255"
    using assms by (simp_all add: c valid_color_def)
  have f1: "float_of_int 1 = 1" "float_of_int (2 - 1) = 1" by (simp_all add: float_of_int_def)
  have i: "interp_channel r 255 1 = 255" "interp_channel g 255 1 = 255" "interp_channel b 255 1 = 255"
    using v by (simp_all add: interp_channel_one)
  show ?thesis
    unfolding shader_shade_def c g
    by (simp add: f1 fdiv_def fsub_def i)
qed

lemma shader_two_shades:
  assumes "valid_color base_rgb"
  shows "shader_generate_shades base_rgb 2 d0_1
           = Inr [background_shade base_rgb d0_1, (255, 255, 255)]"
proof -
  obtain c0 where c0: "shader_shade base_rgb (background_shade base_rgb d0_1) 2 0 = Inr c0"
    using shader_shade_valid [of 2 base_rgb "background_shade base_rgb d0_1" 0] by blast
  have u: "[0..(1::int)] = [0, 1]" by (simp add: upto.simps)
  have "shader_second_pass base_rgb (background_shade base_rgb d0_1) 2 d0_1
          = Inr [background_shade base_rgb d0_1, (255, 255, 255)]"
    by (simp add: shader_second_pass_def u c0 shader_shade_two_last [OF assms])
  then show ?thesis by (simp add: shader_generate_shades_eq)
qed

subsection \<open>The midpoint of the ramp\<close>

lemma collect_nth:
  assumes "collect f ns = Inr xs" "k < length ns"
  shows "f (ns ! k) = Inr (xs ! k)"
proof -
  have "list_all2 (\<lambda>i x. f i = Inr x) ns xs" using assms(1) by (simp only: collect_Inr_iff)
  from list_all2_nthD [OF this assms(2)] show ?thesis .
qed

lemma collect_length: "collect f ns = Inr xs \<Longrightarrow> length xs = length ns"
  by (simp add: collect_Inr_iff list_all2_lengthD)

lemma clamp_valid:
  assumes "valid_color (r, g, b)"
  shows "(clamp255 r, clamp255 g, clamp255 b) = (r, g, b)"
    and "(min (max r 0) 255, min (max g 0) 255, min (max b 0) 255) = (r, g, b)"
  using assms by (simp_all add: valid_color_def clamp255_def)

lemma ascii_fg_shade_target:
  assumes "valid_color base_rgb"
  shows "ascii_fg_shade base_rgb bg nf ((nf - 1) div 2) = Inr base_rgb"
proof -
  obtain r g b where c: "base_rgb = (r, g, b)" by (cases base_rgb)
  obtain bg_r bg_g bg_b where g: "bg = (bg_r, bg_g, bg_b)" by (cases bg)
  show ?thesis
    unfolding ascii_fg_shade_def c g
    using clamp_valid(1) [OF assms [unfolded c]] by (simp add: Let_def)
qed

lemma ascii_midpoint:
  assumes "valid_color base_rgb" "2 \<le> n"
  shows "\<exists>shades. ascii_generate_shades base_rgb n d0_1 = Inr shades
           \<and> shades ! nat (1 + (n - 2) div 2) = base_rgb"
proof (cases "n = 2")
  case True
  then show ?thesis by (simp add: ascii_generate_shades_def)
next
  case False
  define bg where "bg = background_shade base_rgb d0_1"
  define t where "t = (n - 2) div 2"
  have t: "0 \<le> t" "t \<le> n - 2" using assms(2) by (simp_all add: t_def)
  obtain shades where s: "ascii_generate_shades base_rgb n d0_1 = Inr shades"
    using ascii_ramp [OF assms] by blast
  then obtain fg where fg: "collect (ascii_fg_shade base_rgb bg (n - 1)) [0..n - 1 - 1] = Inr fg"
    "shades = bg # fg"
    using False assms(2)
    by (auto simp: ascii_generate_shades_def Let_def bg_def and_then_eq_Inr_iff)
  have k: "nat t < length [0..n - 1 - 1]" using t by simp
  have "[0..n - 1 - 1] ! nat t = t" using t by (simp add: nth_upto)
  with collect_nth [OF fg(1) k]
  have "ascii_fg_shade base_rgb bg (n - 1) t = Inr (fg ! nat t)" by simp
  moreover have "(n - 1 - 1) div 2 = t" by (simp add: t_def)
  ultimately have "fg ! nat t = base_rgb"
    using ascii_fg_shade_target [OF assms(1), of bg "n - 1"] by simp
  moreover have "nat (1 + t) = Suc (nat t)" using t by simp
  ultimately have "shades ! nat (1 + (n - 2) div 2) = base_rgb"
    by (simp add: fg(2) t_def [symmetric])
  with s show ?thesis by blast
qed

lemma float_of_int_double: "float_of_int (2 * m) = 2 * float_of_int m"
  using fround_scale [of "of_int m" 1] by (simp add: float_of_int_def mult.commute)

lemma shader_shade_mid:
  assumes "valid_color base_rgb" "valid_color bg" "1 \<le> m"
  shows "shader_shade base_rgb bg (2 * m + 1) m = Inr base_rgb"
proof -
  obtain r g b where c: "base_rgb = (r, g, b)" by (cases base_rgb)
  obtain bg_r bg_g bg_b where bgc: "bg = (bg_r, bg_g, bg_b)" by (cases bg)
  have v: "0 \<le> r" "r \<le> 255" "0 \<le> g" "g \<le> 255" "0 \<le> b" "b \<le> 255"
    using assms(1) by (simp_all add: c valid_color_def)
  have w: "0 \<le> bg_r" "bg_r \<le> 255" "0 \<le> bg_g" "bg_g \<le> 255" "0 \<le> bg_b" "bg_b \<le> 255"
    using assms(2) by (simp_all add: bgc valid_color_def)
  define M where "M = float_of_int m"
  have Mpos: "0 < M" unfolding M_def using assms(3) by (intro float_of_int_pos) simp
  have F: "float_of_int (2 * m + 1 - 1) = 2 * M" by (simp add: float_of_int_double M_def)
  have frM: "fround M = M" by (simp add: M_def)
  have mid: "fdiv (2 * M) 2 = Inr M" by (simp add: fdiv_def frM)
  have one: "interp_channel bg_r r 1 = r" "interp_channel bg_g g 1 = g" "interp_channel bg_b b 1 = b"
    using v w by (simp_all add: interp_channel_one)
  have zero: "interp_channel r 255 0 = r" "interp_channel g 255 0 = g" "interp_channel b 255 0 = b"
    using v by (simp_all add: interp_channel_zero)
  have d1: "fdiv M M = Inr 1" using Mpos by (simp add: fdiv_def)
  have d2: "fdiv (fsub M M) (fsub (2 * M) M) = Inr 0" using Mpos by (simp add: fdiv_def fsub_def frM)
  show ?thesis
    unfolding shader_shade_def c bgc prod.case F mid and_then_Inr M_def [symmetric]
    using clamp_valid(2) [OF assms(1) [unfolded c]]
    by (simp add: d1 d2 one zero)
qed

lemma shader_midpoint:
  assumes "valid_color base_rgb" "2 \<le> n" "odd n"
  shows "\<exists>shades. shader_generate_shades base_rgb n d0_1 = Inr shades
           \<and> shades ! nat ((n - 1) div 2) = base_rgb"
proof -
  define bg where "bg = background_shade base_rgb d0_1"
  define m where "m = (n - 1) div 2"
  have n: "n = 2 * m + 1" using assms(3) by (simp add: m_def)
  have m: "1 \<le> m" using assms(2,3) n by presburger
  have bgv: "valid_color bg" unfolding bg_def using assms(1) by (rule background_tenth)
  obtain shades where s: "shader_second_pass base_rgb bg n d0_1 = Inr shades"
    using shader_second_pass_ramp [OF assms(1,2)] by blast
  then obtain xs where xs: "collect (shader_shade base_rgb bg n) [0..n - 1] = Inr xs"
    by (auto simp: shader_second_pass_def and_then_eq_Inr_iff)
  from s xs obtain x rest where xr: "xs = x # rest" "shades = bg # rest"
    by (cases xs) (auto simp: shader_second_pass_def bg_def)
  have k: "nat m < length [0..n - 1]" using m n by simp
  have "[0..n - 1] ! nat m = m" using m n by (simp add: nth_upto)
  with collect_nth [OF xs k] have "shader_shade base_rgb bg n m = Inr (xs ! nat m)" by simp
  then have "xs ! nat m = base_rgb"
    using shader_shade_mid [OF assms(1) bgv m] n by simp
  moreover have "nat m = Suc (nat (m - 1))" using m by simp
  ultimately have "shades ! nat m = base_rgb" by (simp add: xr)
  then show ?thesis
    using s by (simp add: shader_generate_shades_eq [OF assms(2)] bg_def m_def)
qed

section \<open>Claims\<close>

text \<open>
  Claim C1. For every base color with 8-bit channels and every shade count
  \<open>n \<ge> 2\<close>, \<open>generate_shades\<close> of both variants returns (raises nothing) a list of
  exactly \<open>n\<close> colors whose element 0 is the base color with each channel multiplied
  by 0.1 and rounded toward zero, whose channels all lie in \<open>[0, 255]\<close>, and whose
  element 0 is at most the base color in each channel.
\<close>

theorem generate_shades_ramp:
  assumes "valid_color base_rgb" "2 \<le> n"
  shows "(\<exists>shades. ascii_generate_shades base_rgb n d0_1 = Inr shades
            \<and> ramp_contract base_rgb n shades)
       \<and> (\<exists>shades. shader_generate_shades base_rgb n d0_1 = Inr shades
            \<and> ramp_contract base_rgb n shades)"
  using ascii_ramp [OF assms] shader_second_pass_ramp [OF assms]
  by (simp add: shader_generate_shades_eq [OF assms(2)])

theorem generate_shades_ramp_witness:
  "valid_color (68, 204, 170) \<and> (2::int) \<le> 5
   \<and> (\<exists>shades. ascii_generate_shades (68, 204, 170) 5 d0_1 = Inr shades
            \<and> ramp_contract (68, 204, 170) 5 shades)
   \<and> (\<exists>shades. shader_generate_shades (68, 204, 170) 5 d0_1 = Inr shades
            \<and> ramp_contract (68, 204, 170) 5 shades)"
proof -
  have v: "valid_color (68, 204, 170)" by (simp add: valid_color_def)
  have n: "(2::int) \<le> 5" by simp
  show ?thesis using generate_shades_ramp [OF v n] v by simp
qed

text \<open>
  Claim C4, as stated: for a shade count of 2, both variants return
  \<open>[background, base_color]\<close>. The block variant does not: its last shade is white.
\<close>

theorem two_shades_counterexample:
  "shader_generate_shades (68, 204, 170) 2 d0_1
     \<noteq> Inr [background_shade (68, 204, 170) d0_1, (68, 204, 170)]"
proof -
  have v: "valid_color (68, 204, 170)" by (simp add: valid_color_def)
  show ?thesis by (simp add: shader_two_shades [OF v])
qed

text \<open>
  Claim C4, amended: for every base color with 8-bit channels and a shade count of 2,
  the glyph variant returns \<open>[background, base_color]\<close> and the block variant
  returns \<open>[background, (255, 255, 255)]\<close>.
\<close>

theorem two_shades:
  assumes "valid_color base_rgb"
  shows "ascii_generate_shades base_rgb 2 d0_1 = Inr [background_shade base_rgb d0_1, base_rgb]
       \<and> shader_generate_shades base_rgb 2 d0_1
           = Inr [background_shade base_rgb d0_1, (255, 255, 255)]"
  using shader_two_shades [OF assms] by (simp add: ascii_generate_shades_def)

theorem two_shades_witness:
  "valid_color (68, 204, 170)
   \<and> ascii_generate_shades (68, 204, 170) 2 d0_1
        = Inr [background_shade (68, 204, 170) d0_1, (68, 204, 170)]
   \<and> shader_generate_shades (68, 204, 170) 2 d0_1
        = Inr [background_shade (68, 204, 170) d0_1, (255, 255, 255)]"
proof -
  have v: "valid_color (68, 204, 170)" by (simp add: valid_color_def)
  show ?thesis using two_shades [OF v] v by simp
qed

text \<open>
  Claim C9. In the block variant the first ramp computation is dead: it raises
  nothing, and \<open>generate_shades\<close> returns what the function with only the second
  computation returns.
\<close>

theorem shader_first_pass_dead:
  "shader_generate_shades base_rgb n f = shader_generate_shades_simplified base_rgb n f"
proof (cases "n < 2")
  case True
  then show ?thesis
    by (simp add: shader_generate_shades_def shader_generate_shades_simplified_def)
next
  case False
  then show ?thesis
    by (simp add: shader_generate_shades_eq shader_generate_shades_simplified_def)
qed

text \<open>
  Claim C8. For every base color with 8-bit channels the ramp holds the base color
  itself at the midpoint index of each variant: in the glyph variant at index
  \<open>1 + (n - 2) div 2\<close> (the midpoint over the foreground shades, for every
  \<open>n \<ge> 2\<close>, so also when \<open>(n - 2) / 2\<close> is an integer), in the block variant at
  index \<open>(n - 1) / 2\<close> when \<open>n\<close> is odd.
\<close>

theorem midpoint_is_base:
  assumes "valid_color base_rgb" "2 \<le> n"
  shows "(\<exists>shades. ascii_generate_shades base_rgb n d0_1 = Inr shades
            \<and> shades ! nat (1 + (n - 2) div 2) = base_rgb)
       \<and> (odd n \<longrightarrow> (\<exists>shades. shader_generate_shades base_rgb n d0_1 = Inr shades
            \<and> shades ! nat ((n - 1) div 2) = base_rgb))"
  using ascii_midpoint [OF assms] shader_midpoint [OF assms] by blast

theorem midpoint_is_base_witness:
  "valid_color (68, 204, 170) \<and> (2::int) \<le> 5 \<and> odd (5::int)
   \<and> (\<exists>shades. ascii_generate_shades (68, 204, 170) 5 d0_1 = Inr shades
            \<and> shades ! nat (1 + (5 - 2) div 2) = (68, 204, 170))
   \<and> (\<exists>shades. shader_generate_shades (68, 204, 170) 5 d0_1 = Inr shades
            \<and> shades ! nat ((5 - 1) div 2) = (68, 204, 170))"
proof -
  have v: "valid_color (68, 204, 170)" by (simp add: valid_color_def)
  have n: "(2::int) \<le> 5" by simp
  show ?thesis using midpoint_is_base [OF v n] v by simp
qed

end
